theory Spec2Isabelle
  imports Main "HOL-Library.Char_ord" "HOL-Library.List_Lexorder" "HOL-Library.Sublist"
    "HOL-Library.Multiset"
begin

section \<open>The caching definition index of \<^verbatim>\<open>caching_index.py\<close>\<close>

text \<open>
  The class \<^verbatim>\<open>_CacheingDefinitionIndex\<close> is embedded with explicit state passing.
  The constructor's arguments, which no method assigns to, are the record \<open>index\<close>;
  the four attributes the methods assign to are the record \<open>state\<close>. Every method
  takes the state and returns its result together with the state it leaves behind, also
  when it raises: a result is \<open>Inl e\<close> for a raised exception \<open>e\<close> and \<open>Inr v\<close> for a
  returned value \<open>v\<close>.
\<close>

subsection \<open>Data\<close>

text \<open>
  A definition object: its \<^verbatim>\<open>name\<close> attribute and the rest of the object, which the
  index never looks at. Python's \<^verbatim>\<open>==\<close> on two definitions is HOL equality of the two
  records. Definition objects are truthy (they define neither \<^verbatim>\<open>__bool__\<close> nor
  \<^verbatim>\<open>__len__\<close>), and so are functions.
\<close>

record 'b defn =
  name :: string
  body :: 'b

text \<open>
  The exceptions. The three \<^verbatim>\<open>check.invariant\<close> calls and the one in the loop of
  \<^verbatim>\<open>get_definition_names\<close> raise the same class with four different messages; the
  constructor of \<open>check\<close> says which message, with the values formatted into it.
  \<open>Raised\<close> is an exception of a collaborator (a factory, the validation function, the
  lazy-definitions function), which the index passes on as it is.
\<close>

datatype check =
    BadDefinition string
  | BadConstructorType string
  | BadConstructorName string string
  | DuplicateDefinition string

datatype error =
    CheckError check
  | DagsterInvariantViolationError string
  | TypeError
  | KeyError string
  | Raised string

text \<open>
  Modelled from the spec: \<^verbatim>\<open>check.invariant\<close> of \<^verbatim>\<open>dagster._check\<close>, a module of the
  repository whose source is not among the files at hand. The index calls it with a
  condition and a message. By the spec (sections 4.1 and 7) a condition that does not hold
  is fatal to the call, which fails with the condition the message names, and a
  condition that holds lets the call go on. \<^verbatim>\<open>check.str_param\<close> of the same module checks
  that a name is a string, which every name is here.
\<close>

definition invariant :: "bool \<Rightarrow> check \<Rightarrow> error option" where
  "invariant condition failure = (if condition then None else Some (CheckError failure))"

text \<open>
  A value of the \<^verbatim>\<open>definitions\<close> mapping: a definition object, or a callable. A
  callable is given the number of times it has been called before, so that it may return
  something else, or raise, on a later call.
\<close>

datatype 'b source =
    Definition "'b defn"
  | Callable "nat \<Rightarrow> error + 'b defn"

text \<open>
  The calls the index makes to its collaborators, in the order it makes them, and the
  assignments of a computed name list (line 94). The state records them in \<open>trace\<close>,
  which no method reads except to count the earlier calls of a collaborator it calls.
\<close>

datatype 'b event =
    Discovery
  | Factory string
  | Validation "'b defn"
  | Names

text \<open>
  \<open>definition_class\<close> is the class as its instance test: \<open>definition_class self d\<close> is
  \<^verbatim>\<open>isinstance(d, definition_class)\<close>. \<open>definitions\<close> is the mapping in insertion order:
  a list of pairs, whose keys are distinct in a Python mapping; \<open>map fst\<close> gives its
  keys and \<open>map_of\<close> looks a key up. \<open>lazy_definitions_fn\<close> is \<open>None\<close> when the argument
  is left out; like a factory, the function is given the number of its earlier calls.
\<close>

record 'b index =
  definition_class :: "'b defn \<Rightarrow> bool"
  definition_class_name :: string
  definition_kind :: string
  definitions :: "(string \<times> 'b source) list"
  validation_fn :: "'b defn \<Rightarrow> error + 'b defn"
  lazy_definitions_fn :: "(nat \<Rightarrow> error + 'b defn list) option"

record 'b state =
  definition_cache :: "string \<rightharpoonup> 'b defn"
  definition_names :: "string list option"
  lazy_definitions :: "'b defn list option"
  all_definitions :: "'b defn list option"
  trace :: "'b event list"

type_synonym ('a, 'b) result = "(error + 'a) \<times> 'b state"

subsection \<open>The constructor (lines 20 to 69)\<close>

text \<open>\<^verbatim>\<open>isinstance(definition, definition_class) or callable(definition)\<close>, line 41.\<close>

fun acceptable :: "'b index \<Rightarrow> 'b source \<Rightarrow> bool" where
  "acceptable self (Definition d) = definition_class self d"
| "acceptable self (Callable f) = True"

fun check_definitions :: "'b index \<Rightarrow> (string \<times> 'b source) list \<Rightarrow> error option" where
  "check_definitions self [] = None"
| "check_definitions self ((key, definition) # rest) =
     (case invariant (acceptable self definition) (BadDefinition key) of
        Some e \<Rightarrow> Some e
      | None \<Rightarrow> check_definitions self rest)"

definition initial_state :: "'b state" where
  "initial_state =
     \<lparr>definition_cache = Map.empty, definition_names = None, lazy_definitions = None,
      all_definitions = None, trace = []\<rparr>"

definition init :: "'b index \<Rightarrow> error + 'b state" where
  "init self =
     (case check_definitions self (definitions self) of
        Some e \<Rightarrow> Inl e
      | None \<Rightarrow> Inr initial_state)"

text \<open>\<^verbatim>\<open>lazy_definitions_fn or (lambda: [])\<close>, line 66.\<close>

definition the_lazy_definitions_fn :: "'b index \<Rightarrow> nat \<Rightarrow> error + 'b defn list" where
  "the_lazy_definitions_fn self =
     (case lazy_definitions_fn self of None \<Rightarrow> (\<lambda>_. Inr []) | Some f \<Rightarrow> f)"

subsection \<open>\<^verbatim>\<open>_validate_and_cache_definition\<close> (lines 145 to 168)\<close>

definition validate_and_cache_definition ::
  "'b index \<Rightarrow> 'b defn \<Rightarrow> string \<Rightarrow> 'b state \<Rightarrow> (unit, 'b) result" where
  "validate_and_cache_definition self d definition_dict_key s =
     (case invariant (definition_class self d) (BadConstructorType definition_dict_key) of
        Some e \<Rightarrow> (Inl e, s)
      | None \<Rightarrow>
          (case invariant (name d = definition_dict_key)
                  (BadConstructorName definition_dict_key (name d)) of
             Some e \<Rightarrow> (Inl e, s)
           | None \<Rightarrow>
               (case validation_fn self d of
                  Inl e \<Rightarrow> (Inl e, s\<lparr>trace := trace s @ [Validation d]\<rparr>)
                | Inr v \<Rightarrow>
                    (Inr (),
                     s\<lparr>definition_cache := (definition_cache s)(definition_dict_key \<mapsto> v),
                       trace := trace s @ [Validation d]\<rparr>))))"

subsection \<open>\<^verbatim>\<open>_get_lazy_definitions\<close> (lines 71 to 77)\<close>

text \<open>The loop of lines 74 and 75.\<close>

fun validate_lazy :: "'b index \<Rightarrow> 'b defn list \<Rightarrow> 'b state \<Rightarrow> (unit, 'b) result" where
  "validate_lazy self [] s = (Inr (), s)"
| "validate_lazy self (d # ds) s =
     (case validate_and_cache_definition self d (name d) s of
        (Inl e, s') \<Rightarrow> (Inl e, s')
      | (Inr _, s') \<Rightarrow> validate_lazy self ds s')"

definition get_lazy_definitions ::
  "'b index \<Rightarrow> 'b state \<Rightarrow> ('b defn list, 'b) result" where
  "get_lazy_definitions self s =
     (case lazy_definitions s of
        Some ds \<Rightarrow> (Inr ds, s)
      | None \<Rightarrow>
          (case the_lazy_definitions_fn self (count_list (trace s) Discovery) of
             Inl e \<Rightarrow> (Inl e, s\<lparr>trace := trace s @ [Discovery]\<rparr>)
           | Inr ds \<Rightarrow>
               (case validate_lazy self ds
                       (s\<lparr>lazy_definitions := Some ds, trace := trace s @ [Discovery]\<rparr>) of
                  (Inl e, s') \<Rightarrow> (Inl e, s')
                | (Inr _, s') \<Rightarrow> (Inr ds, s'))))"

subsection \<open>\<^verbatim>\<open>get_definition_names\<close> and \<^verbatim>\<open>has_definition\<close> (lines 79 to 100)\<close>

text \<open>\<^verbatim>\<open>strict_definition == definition\<close>, line 88: a function equals no definition.\<close>

fun source_eq :: "'b source \<Rightarrow> 'b defn \<Rightarrow> bool" where
  "source_eq (Definition d0) d = (d0 = d)"
| "source_eq (Callable f) d = False"

text \<open>
  The loop of lines 84 to 92 over the lazy definitions, with \<^verbatim>\<open>lazy_names\<close> as the
  accumulator. \<^verbatim>\<open>if strict_definition:\<close> is true exactly when the key is there, as the
  values of the mapping are truthy.
\<close>

fun collect_lazy_names ::
  "'b index \<Rightarrow> 'b defn list \<Rightarrow> string list \<Rightarrow> error + string list" where
  "collect_lazy_names self [] lazy_names = Inr lazy_names"
| "collect_lazy_names self (d # ds) lazy_names =
     (case map_of (definitions self) (name d) of
        Some strict_definition \<Rightarrow>
          (case invariant (source_eq strict_definition d) (DuplicateDefinition (name d)) of
             Some e \<Rightarrow> Inl e
           | None \<Rightarrow> collect_lazy_names self ds lazy_names)
      | None \<Rightarrow> collect_lazy_names self ds (lazy_names @ [name d]))"

text \<open>\<^verbatim>\<open>if self._definition_names:\<close>, line 80: neither \<^verbatim>\<open>None\<close> nor the empty list.\<close>

fun truthy :: "'a list option \<Rightarrow> bool" where
  "truthy None = False"
| "truthy (Some []) = False"
| "truthy (Some (x # xs)) = True"

definition get_definition_names :: "'b index \<Rightarrow> 'b state \<Rightarrow> (string list, 'b) result" where
  "get_definition_names self s =
     (if truthy (definition_names s) then (Inr (the (definition_names s)), s)
      else
        (case get_lazy_definitions self s of
           (Inl e, s') \<Rightarrow> (Inl e, s')
         | (Inr ds, s') \<Rightarrow>
             (case collect_lazy_names self ds [] of
                Inl e \<Rightarrow> (Inl e, s')
              | Inr lazy_names \<Rightarrow>
                  (let names = map fst (definitions self) @ lazy_names
                   in (Inr names,
                       s'\<lparr>definition_names := Some names, trace := trace s' @ [Names]\<rparr>)))))"

definition has_definition :: "'b index \<Rightarrow> string \<Rightarrow> 'b state \<Rightarrow> (bool, 'b) result" where
  "has_definition self definition_name s =
     (case get_definition_names self s of
        (Inl e, s') \<Rightarrow> (Inl e, s')
      | (Inr names, s') \<Rightarrow> (Inr (definition_name \<in> set names), s'))"

subsection \<open>\<^verbatim>\<open>get_definition\<close> (lines 114 to 143)\<close>

definition quoted :: "string \<Rightarrow> string" where
  "quoted found_name = [CHR 0x27] @ found_name @ [CHR 0x27]"

fun join :: "string \<Rightarrow> string list \<Rightarrow> string" where
  "join sep [] = []"
| "join sep [x] = x"
| "join sep (x # y # ys) = x @ sep @ join sep (y # ys)"

definition not_found_message :: "'b index \<Rightarrow> string \<Rightarrow> string list \<Rightarrow> string" where
  "not_found_message self definition_name found_names =
     ''Could not find '' @ definition_kind self @ '' '' @ quoted definition_name
       @ ''. Found: '' @ join '', '' (map quoted found_names) @ ''.''"

text \<open>
  Lines 135 to 143. A key that is missing from the mapping raises \<^verbatim>\<open>KeyError\<close>; an
  object that is not an instance of the class is called, which raises \<^verbatim>\<open>TypeError\<close>
  when the object is a definition of another class.
\<close>

definition load_definition :: "'b index \<Rightarrow> string \<Rightarrow> 'b state \<Rightarrow> ('b defn, 'b) result" where
  "load_definition self definition_name s =
     (case map_of (definitions self) definition_name of
        None \<Rightarrow> (Inl (KeyError definition_name), s)
      | Some (Definition definition_source) \<Rightarrow>
          (if definition_class self definition_source then
             (case validation_fn self definition_source of
                Inl e \<Rightarrow> (Inl e, s\<lparr>trace := trace s @ [Validation definition_source]\<rparr>)
              | Inr v \<Rightarrow>
                  (Inr definition_source,
                   s\<lparr>definition_cache := (definition_cache s)(definition_name \<mapsto> v),
                     trace := trace s @ [Validation definition_source]\<rparr>))
           else (Inl TypeError, s))
      | Some (Callable f) \<Rightarrow>
          (case f (count_list (trace s) (Factory definition_name)) of
             Inl e \<Rightarrow> (Inl e, s\<lparr>trace := trace s @ [Factory definition_name]\<rparr>)
           | Inr d \<Rightarrow>
               (case validate_and_cache_definition self d definition_name
                       (s\<lparr>trace := trace s @ [Factory definition_name]\<rparr>) of
                  (Inl e, s') \<Rightarrow> (Inl e, s')
                | (Inr _, s') \<Rightarrow> (Inr d, s'))))"

definition get_definition :: "'b index \<Rightarrow> string \<Rightarrow> 'b state \<Rightarrow> ('b defn, 'b) result" where
  "get_definition self definition_name s =
     (case has_definition self definition_name s of
        (Inl e, s1) \<Rightarrow> (Inl e, s1)
      | (Inr False, s1) \<Rightarrow>
          (case get_definition_names self s1 of
             (Inl e, s2) \<Rightarrow> (Inl e, s2)
           | (Inr found_names, s2) \<Rightarrow>
               (Inl (DagsterInvariantViolationError
                       (not_found_message self definition_name found_names)), s2))
      | (Inr True, s1) \<Rightarrow>
          (case definition_cache s1 definition_name of
             Some d \<Rightarrow> (Inr d, s1)
           | None \<Rightarrow> load_definition self definition_name s1))"

subsection \<open>\<^verbatim>\<open>get_all_definitions\<close> (lines 102 to 112)\<close>

text \<open>\<^verbatim>\<open>map(self.get_definition, names)\<close> as \<^verbatim>\<open>sorted\<close> consumes it, left to right.\<close>

fun map_get_definition ::
  "'b index \<Rightarrow> string list \<Rightarrow> 'b state \<Rightarrow> ('b defn list, 'b) result" where
  "map_get_definition self [] s = (Inr [], s)"
| "map_get_definition self (n # ns) s =
     (case get_definition self n s of
        (Inl e, s') \<Rightarrow> (Inl e, s')
      | (Inr d, s') \<Rightarrow>
          (case map_get_definition self ns s' of
             (Inl e, s'') \<Rightarrow> (Inl e, s'')
           | (Inr ds, s'') \<Rightarrow> (Inr (d # ds), s'')))"

text \<open>
  \<^verbatim>\<open>sorted\<close> with a key is stable, and so is \<open>sort_key\<close>; Python compares strings by
  code point, position by position, which is the order of \<open>string\<close> here.
\<close>

definition get_all_definitions :: "'b index \<Rightarrow> 'b state \<Rightarrow> ('b defn list, 'b) result" where
  "get_all_definitions self s =
     (case all_definitions s of
        Some ds \<Rightarrow> (Inr ds, s)
      | None \<Rightarrow>
          (case get_definition_names self s of
             (Inl e, s1) \<Rightarrow> (Inl e, s1)
           | (Inr names, s1) \<Rightarrow>
               (case map_get_definition self names s1 of
                  (Inl e, s2) \<Rightarrow> (Inl e, s2)
                | (Inr ds, s2) \<Rightarrow>
                    (let sorted_ds = sort_key name ds
                     in (Inr sorted_ds, s2\<lparr>all_definitions := Some sorted_ds\<rparr>)))))"

subsection \<open>Sequences of calls\<close>

text \<open>
  A caller that catches an exception goes on using the index, so a sequence of calls
  threads the state through, whatever each call returns.
\<close>

datatype op = ListNames | HasName string | Resolve string | GetAll

datatype 'b outcome =
    NameList "string list"
  | Has bool
  | Resolved "'b defn"
  | All "'b defn list"

fun perform :: "'b index \<Rightarrow> op \<Rightarrow> 'b state \<Rightarrow> ('b outcome, 'b) result" where
  "perform self ListNames s = map_prod (map_sum id NameList) id (get_definition_names self s)"
| "perform self (HasName n) s = map_prod (map_sum id Has) id (has_definition self n s)"
| "perform self (Resolve n) s = map_prod (map_sum id Resolved) id (get_definition self n s)"
| "perform self GetAll s = map_prod (map_sum id All) id (get_all_definitions self s)"

fun run :: "'b index \<Rightarrow> op list \<Rightarrow> 'b state \<Rightarrow> 'b state" where
  "run self [] s = s"
| "run self (c # cs) s = run self cs (snd (perform self c s))"

section \<open>Properties of states\<close>

text \<open>
  \<open>discovered\<close>: while the lazy definitions are unset, every call of the lazy-definitions
  function so far has raised; once they are set, they are what its last call returned,
  and every call before that one raised.
  \<open>names_ok\<close>: a memoized name list is the keys of the mapping followed by the names
  the loop of lines 84 to 92 collects from the memoized lazy definitions.
\<close>

definition discovered :: "'b index \<Rightarrow> 'b state \<Rightarrow> bool" where
  "discovered self s =
     (case lazy_definitions s of
        None \<Rightarrow> (\<forall>k < count_list (trace s) Discovery. isl (the_lazy_definitions_fn self k))
      | Some ds \<Rightarrow>
          (\<exists>k. count_list (trace s) Discovery = Suc k \<and>
               the_lazy_definitions_fn self k = Inr ds \<and>
               (\<forall>j < k. isl (the_lazy_definitions_fn self j))))"

definition names_ok :: "'b index \<Rightarrow> 'b state \<Rightarrow> bool" where
  "names_ok self s =
     (\<forall>ns. definition_names s = Some ns \<longrightarrow>
        (\<exists>ds lz. lazy_definitions s = Some ds \<and> collect_lazy_names self ds [] = Inr lz \<and>
           ns = map fst (definitions self) @ lz))"

definition inv :: "'b index \<Rightarrow> 'b state \<Rightarrow> bool" where
  "inv self s = (discovered self s \<and> names_ok self s)"

definition same_core :: "'b state \<Rightarrow> 'b state \<Rightarrow> bool" where
  "same_core s s' =
     (definition_names s' = definition_names s \<and> lazy_definitions s' = lazy_definitions s \<and>
      count_list (trace s') Discovery = count_list (trace s) Discovery)"



text \<open>A memoized list of all definitions is sorted by name.\<close>

definition all_sorted :: "'b state \<Rightarrow> bool" where
  "all_sorted s = (case all_definitions s of None \<Rightarrow> True | Some ds \<Rightarrow> sorted (map name ds))"

section \<open>Example indices\<close>

definition job_a :: "nat defn" where "job_a = \<lparr>name = ''a'', body = 1\<rparr>"

definition job_b :: "nat defn" where "job_b = \<lparr>name = ''b'', body = 2\<rparr>"

definition job_c :: "nat defn" where "job_c = \<lparr>name = ''c'', body = 3\<rparr>"

text \<open>
  The mapping \<^verbatim>\<open>{"a": job_a, "b": lambda: job_b}\<close>, a lazy-definitions function that
  returns \<^verbatim>\<open>[job_c]\<close>, and a validation function that returns its argument.
\<close>

definition example_index :: "nat index" where
  "example_index =
     \<lparr>definition_class = (\<lambda>_. True), definition_class_name = ''JobDefinition'',
      definition_kind = ''job'',
      definitions = [(''a'', Definition job_a), (''b'', Callable (\<lambda>_. Inr job_b))],
      validation_fn = Inr, lazy_definitions_fn = Some (\<lambda>_. Inr [job_c])\<rparr>"

text \<open>The same, with a lazy-definitions function that raises when it is first called.\<close>

definition flaky_index :: "nat index" where
  "flaky_index =
     example_index\<lparr>lazy_definitions_fn :=
       Some (\<lambda>k. if k = 0 then Inl (Raised ''unavailable'') else Inr [job_c])\<rparr>"

text \<open>The same mapping and no lazy-definitions function.\<close>

definition eager_index :: "nat index" where
  "eager_index = example_index\<lparr>lazy_definitions_fn := None\<rparr>"

text \<open>An index with an empty mapping and no lazy-definitions function.\<close>

definition empty_index :: "nat index" where
  "empty_index = example_index\<lparr>definitions := [], lazy_definitions_fn := None\<rparr>"

text \<open>
  A validation function that changes the body shows the difference between what is
  returned and what is cached.
\<close>

definition stamping_index :: "nat index" where
  "stamping_index = example_index\<lparr>validation_fn := (\<lambda>d. Inr (d\<lparr>body := body d + 100\<rparr>))\<rparr>"

text \<open>The factory under \<^verbatim>\<open>"b"\<close> returns the definition named \<^verbatim>\<open>"c"\<close>.\<close>

definition misnamed_index :: "nat index" where
  "misnamed_index =
     example_index\<lparr>definitions := [(''a'', Definition job_a), (''b'', Callable (\<lambda>_. Inr job_c))],
       lazy_definitions_fn := None\<rparr>"


text \<open>The mapping \<^verbatim>\<open>{"c": lambda: job_c, "a": job_a}\<close> and the lazy definition \<^verbatim>\<open>job_b\<close>.\<close>

definition unsorted_index :: "nat index" where
  "unsorted_index =
     example_index\<lparr>definitions := [(''c'', Callable (\<lambda>_. Inr job_c)), (''a'', Definition job_a)],
       lazy_definitions_fn := Some (\<lambda>_. Inr [job_b])\<rparr>"

text \<open>
  The mapping of \<open>example_index\<close> with two lazy definitions: in \<open>conflicting_index\<close> a
  definition named \<^verbatim>\<open>"a"\<close> that is not the one of the mapping, in \<open>overlapping_index\<close>
  the one of the mapping.
\<close>

definition other_a :: "nat defn" where "other_a = \<lparr>name = ''a'', body = 7\<rparr>"

definition conflicting_index :: "nat index" where
  "conflicting_index = example_index\<lparr>lazy_definitions_fn := Some (\<lambda>_. Inr [other_a, job_c])\<rparr>"

definition overlapping_index :: "nat index" where
  "overlapping_index = example_index\<lparr>lazy_definitions_fn := Some (\<lambda>_. Inr [job_a, job_c])\<rparr>"

section \<open>The checks, unfolded\<close>

text \<open>
  The three places that call \<^verbatim>\<open>check.invariant\<close>, with the call unfolded: the method
  raises the check error when the condition is false and goes on when it is true.
\<close>

lemma check_definitions_Cons [simp]:
  "check_definitions self ((key, definition) # rest) =
     (if acceptable self definition then check_definitions self rest
      else Some (CheckError (BadDefinition key)))"
  by (simp add: invariant_def)

lemma validate_and_cache_definition_unfold:
  "validate_and_cache_definition self d definition_dict_key s =
     (if \<not> definition_class self d
      then (Inl (CheckError (BadConstructorType definition_dict_key)), s)
      else if name d \<noteq> definition_dict_key
      then (Inl (CheckError (BadConstructorName definition_dict_key (name d))), s)
      else
        (case validation_fn self d of
           Inl e \<Rightarrow> (Inl e, s\<lparr>trace := trace s @ [Validation d]\<rparr>)
         | Inr v \<Rightarrow>
             (Inr (),
              s\<lparr>definition_cache := (definition_cache s)(definition_dict_key \<mapsto> v),
                trace := trace s @ [Validation d]\<rparr>)))"
  by (simp add: validate_and_cache_definition_def invariant_def)

lemma collect_lazy_names_Cons [simp]:
  "collect_lazy_names self (d # ds) lazy_names =
     (case map_of (definitions self) (name d) of
        Some strict_definition \<Rightarrow>
          (if source_eq strict_definition d then collect_lazy_names self ds lazy_names
           else Inl (CheckError (DuplicateDefinition (name d))))
      | None \<Rightarrow> collect_lazy_names self ds (lazy_names @ [name d]))"
  by (simp add: invariant_def split: option.splits)

declare check_definitions.simps(2) [simp del]

declare collect_lazy_names.simps(2) [simp del]

lemmas method_defs =
  get_definition_names_def get_lazy_definitions_def the_lazy_definitions_fn_def
  validate_and_cache_definition_unfold has_definition_def get_definition_def
  load_definition_def get_all_definitions_def initial_state_def init_def Let_def

lemmas example_defs = example_index_def flaky_index_def eager_index_def job_a_def job_b_def job_c_def

section \<open>How each method changes the state\<close>

text \<open>
  Validation writes the cache and nothing else; the lazy definitions are assigned by
  \<open>get_lazy_definitions\<close> only and the name list by \<open>get_definition_names\<close> only. Each
  lemma gives the state a call leaves behind as an update of the state it started from.
\<close>

lemma vcd_shape:
  assumes "validate_and_cache_definition self d k s = (r, s')"
  shows "\<exists>c es. s' = s\<lparr>definition_cache := c, trace := trace s @ es\<rparr> \<and>
           Discovery \<notin> set es \<and> Names \<notin> set es \<and> (\<forall>key. Factory key \<notin> set es)"
proof (cases "definition_class self d \<and> name d = k")
  case False
  then have "s' = s" using assms by (auto simp: validate_and_cache_definition_unfold split: if_splits)
  then have "s' = s\<lparr>definition_cache := definition_cache s, trace := trace s @ []\<rparr>" by simp
  then show ?thesis by (metis empty_iff list.set(1))
next
  case True
  then have "s' = s\<lparr>definition_cache := definition_cache s', trace := trace s @ [Validation d]\<rparr>"
    using assms by (auto simp: validate_and_cache_definition_unfold split: sum.splits)
  moreover have "Discovery \<notin> set [Validation d] \<and> Names \<notin> set [Validation d] \<and> (\<forall>key. Factory key \<notin> set [Validation d])"
    by simp
  ultimately show ?thesis by blast
qed

lemma validate_lazy_shape:
  assumes "validate_lazy self ds s = (r, s')"
  shows "\<exists>c es. s' = s\<lparr>definition_cache := c, trace := trace s @ es\<rparr> \<and>
           Discovery \<notin> set es \<and> Names \<notin> set es \<and> (\<forall>key. Factory key \<notin> set es)"
  using assms
proof (induction ds arbitrary: s)
  case Nil
  then have "s' = s\<lparr>definition_cache := definition_cache s, trace := trace s @ []\<rparr>" by simp
  then show ?case by (metis empty_iff list.set(1))
next
  case (Cons d ds)
  obtain r1 s1 where v: "validate_and_cache_definition self d (name d) s = (r1, s1)"
    by (cases "validate_and_cache_definition self d (name d) s")
  from vcd_shape[OF v] obtain c1 es1 where
    s1: "s1 = s\<lparr>definition_cache := c1, trace := trace s @ es1\<rparr>"
    and e1: "Discovery \<notin> set es1" "Names \<notin> set es1" "\<forall>key. Factory key \<notin> set es1"
    by blast
  show ?case
  proof (cases r1)
    case (Inl e)
    then have "s' = s1" using Cons.prems v by simp
    then show ?thesis using s1 e1 by blast
  next
    case (Inr u)
    then have "validate_lazy self ds s1 = (r, s')" using Cons.prems v by simp
    from Cons.IH[OF this] obtain c2 es2 where
      s2: "s' = s1\<lparr>definition_cache := c2, trace := trace s1 @ es2\<rparr>"
      and e2: "Discovery \<notin> set es2" "Names \<notin> set es2" "\<forall>key. Factory key \<notin> set es2"
      by blast
    have "s' = s\<lparr>definition_cache := c2, trace := trace s @ (es1 @ es2)\<rparr>"
      using s1 s2 by simp
    moreover have "Discovery \<notin> set (es1 @ es2) \<and> Names \<notin> set (es1 @ es2) \<and>
        (\<forall>key. Factory key \<notin> set (es1 @ es2))"
      using e1 e2 by simp
    ultimately show ?thesis by blast
  qed
qed

lemma get_lazy_shape:
  assumes "get_lazy_definitions self s = (r, s')"
  shows "\<exists>c l es. s' = s\<lparr>definition_cache := c, lazy_definitions := l, trace := trace s @ es\<rparr> \<and>
           Names \<notin> set es \<and> (\<forall>key. Factory key \<notin> set es)"
proof (cases "lazy_definitions s")
  case (Some ds)
  then have "s' = s" using assms by (simp add: get_lazy_definitions_def)
  then have "s' = s\<lparr>definition_cache := definition_cache s, lazy_definitions := lazy_definitions s,
      trace := trace s @ []\<rparr>" by simp
  then show ?thesis by (metis empty_iff list.set(1))
next
  case None
  show ?thesis
  proof (cases "the_lazy_definitions_fn self (count_list (trace s) Discovery)")
    case (Inl e)
    then have "s' = s\<lparr>definition_cache := definition_cache s, lazy_definitions := lazy_definitions s,
      trace := trace s @ [Discovery]\<rparr>"
      using assms None by (auto simp: get_lazy_definitions_def)
    moreover have "Names \<notin> set [Discovery :: 'a event] \<and> (\<forall>key. Factory key \<notin> set [Discovery :: 'a event])"
      by simp
    ultimately show ?thesis by blast
  next
    case (Inr ds)
    obtain r1 s1 where v: "validate_lazy self ds
       (s\<lparr>lazy_definitions := Some ds, trace := trace s @ [Discovery]\<rparr>) = (r1, s1)"
      by (cases "validate_lazy self ds (s\<lparr>lazy_definitions := Some ds, trace := trace s @ [Discovery]\<rparr>)")
    then have "s' = s1" using assms None Inr
      by (auto simp: get_lazy_definitions_def split: sum.splits)
    moreover from validate_lazy_shape[OF v] obtain c es where
      "s1 = s\<lparr>lazy_definitions := Some ds, trace := trace s @ [Discovery]\<rparr>
               \<lparr>definition_cache := c, trace := trace (s\<lparr>lazy_definitions := Some ds, trace := trace s @ [Discovery]\<rparr>) @ es\<rparr>"
      and e: "Discovery \<notin> set es" "Names \<notin> set es" "\<forall>key. Factory key \<notin> set es"
      by blast
    ultimately have "s' = s\<lparr>definition_cache := c, lazy_definitions := Some ds,
        trace := trace s @ (Discovery # es)\<rparr>"
      by simp
    moreover have "Names \<notin> set (Discovery # es) \<and> (\<forall>key. Factory key \<notin> set (Discovery # es))"
      using e by simp
    ultimately show ?thesis by blast
  qed
qed

lemma validate_lazy_frame:
  assumes "validate_lazy self ds s = (r, s')"
  shows "definition_names s' = definition_names s"
    and "lazy_definitions s' = lazy_definitions s"
    and "all_definitions s' = all_definitions s"
    and "count_list (trace s') Discovery = count_list (trace s) Discovery"
  using validate_lazy_shape[OF assms] by auto

lemma get_lazy_memo:
  "lazy_definitions s = Some ds \<Longrightarrow> get_lazy_definitions self s = (Inr ds, s)"
  by (simp add: get_lazy_definitions_def)

lemma get_lazy_success:
  assumes "get_lazy_definitions self s = (Inr ds, s')"
  shows "lazy_definitions s' = Some ds"
proof (cases "lazy_definitions s")
  case (Some a)
  then show ?thesis using assms by (simp add: get_lazy_definitions_def)
next
  case None
  then obtain u where "validate_lazy self ds
      (s\<lparr>lazy_definitions := Some ds, trace := trace s @ [Discovery]\<rparr>) = (u, s')"
    using assms by (auto simp: get_lazy_definitions_def split: sum.splits prod.splits)
  from validate_lazy_frame(2)[OF this] show ?thesis by simp
qed

lemma collect_lazy_names_eq:
  "collect_lazy_names self ds acc = Inr lz \<Longrightarrow>
   lz = acc @ filter (\<lambda>n. n \<notin> fst ` set (definitions self)) (map name ds)"
proof (induction ds arbitrary: acc)
  case Nil
  then show ?case by simp
next
  case (Cons d ds)
  show ?case
  proof (cases "map_of (definitions self) (name d)")
    case None
    then have "name d \<notin> fst ` set (definitions self)" by (simp add: map_of_eq_None_iff)
    moreover have "collect_lazy_names self ds (acc @ [name d]) = Inr lz"
      using Cons.prems None by simp
    ultimately show ?thesis using Cons.IH[of "acc @ [name d]"] by simp
  next
    case (Some src)
    then have "name d \<in> fst ` set (definitions self)"
      by (metis map_of_eq_None_iff option.distinct(1))
    moreover have "collect_lazy_names self ds acc = Inr lz"
      using Cons.prems Some by (simp split: if_splits)
    ultimately show ?thesis using Cons.IH[of acc] by simp
  qed
qed


lemma get_names_compute:
  assumes "\<not> truthy (definition_names s)"
    and "get_definition_names self s = (Inr ns, s')"
  shows "\<exists>ds lz s1. get_lazy_definitions self s = (Inr ds, s1) \<and>
           collect_lazy_names self ds [] = Inr lz \<and>
           ns = map fst (definitions self) @ lz \<and>
           s' = s1\<lparr>definition_names := Some ns, trace := trace s1 @ [Names]\<rparr>"
  using assms
  by (auto simp: get_definition_names_def Let_def split: prod.splits sum.splits)

lemma get_names_shape:
  assumes "get_definition_names self s = (r, s')"
  shows "\<exists>c n l es. s' = s\<lparr>definition_cache := c, definition_names := n,
             lazy_definitions := l, trace := trace s @ es\<rparr> \<and>
           (\<forall>key. Factory key \<notin> set es)"
proof (cases "truthy (definition_names s)")
  case True
  then have "s' = s" using assms by (simp add: get_definition_names_def)
  then have "s' = s\<lparr>definition_cache := definition_cache s, definition_names := definition_names s,
      lazy_definitions := lazy_definitions s, trace := trace s @ []\<rparr>" by simp
  then show ?thesis by (metis empty_iff list.set(1))
next
  case False
  obtain r1 s1 where g: "get_lazy_definitions self s = (r1, s1)"
    by (cases "get_lazy_definitions self s")
  from get_lazy_shape[OF g] obtain c l es where
    s1: "s1 = s\<lparr>definition_cache := c, lazy_definitions := l, trace := trace s @ es\<rparr>"
    and es: "\<forall>key. Factory key \<notin> set es" by blast
  have "s' = s1 \<or> (\<exists>n. s' = s1\<lparr>definition_names := n, trace := trace s1 @ [Names]\<rparr>)"
    using assms False g
    by (auto simp: get_definition_names_def Let_def split: sum.splits)
  then show ?thesis
  proof
    assume "s' = s1"
    then have "s' = s\<lparr>definition_cache := c, definition_names := definition_names s,
        lazy_definitions := l, trace := trace s @ es\<rparr>" using s1 by simp
    then show ?thesis using es by blast
  next
    assume "\<exists>n. s' = s1\<lparr>definition_names := n, trace := trace s1 @ [Names]\<rparr>"
    then obtain n where "s' = s1\<lparr>definition_names := n, trace := trace s1 @ [Names]\<rparr>" ..
    then have "s' = s\<lparr>definition_cache := c, definition_names := n,
        lazy_definitions := l, trace := trace s @ (es @ [Names])\<rparr>" using s1 by simp
    moreover have "\<forall>key. Factory key \<notin> set (es @ [Names])" using es by simp
    ultimately show ?thesis by blast
  qed
qed

lemma has_definition_state:
  "snd (has_definition self n s) = snd (get_definition_names self s)"
  by (simp add: has_definition_def split: prod.splits sum.splits)

subsection \<open>Names and existence call no factory\<close>

text \<open>
  Claim C10. \<^verbatim>\<open>get_definition_names\<close> and \<^verbatim>\<open>has_definition\<close> call no value of the
  \<^verbatim>\<open>definitions\<close> mapping: for every key, the number of calls of the factory under that
  key is after the call what it was before, whatever the state and whether the call
  returns or raises. A factory that has not been called stays uncalled until
  \<^verbatim>\<open>get_definition\<close> or \<^verbatim>\<open>get_all_definitions\<close> reaches its key.
\<close>

theorem names_and_has_call_no_factory:
  "count_list (trace (snd (get_definition_names self s))) (Factory key) =
     count_list (trace s) (Factory key) \<and>
   count_list (trace (snd (has_definition self n s))) (Factory key) =
     count_list (trace s) (Factory key)"
proof -
  obtain r s' where g: "get_definition_names self s = (r, s')"
    by (cases "get_definition_names self s")
  from get_names_shape[OF g] have "count_list (trace s') (Factory key) = count_list (trace s) (Factory key)"
    by auto
  then show ?thesis using g by (simp add: has_definition_state)
qed

section \<open>What holds in every state an index reaches\<close>

lemma inv_initial: "inv self initial_state"
  by (simp add: inv_def discovered_def names_ok_def initial_state_def)

lemma inv_same_core: "same_core s s' \<Longrightarrow> inv self s \<Longrightarrow> inv self s'"
  by (auto simp: inv_def discovered_def names_ok_def same_core_def split: option.splits)

lemma discovered_get_lazy:
  assumes "get_lazy_definitions self s = (r, s')" and "discovered self s"
  shows "discovered self s'"
proof (cases "lazy_definitions s")
  case (Some ds)
  then have "s' = s" using assms(1) by (simp add: get_lazy_definitions_def)
  then show ?thesis using assms(2) by simp
next
  case None
  let ?n = "count_list (trace s) Discovery"
  have old: "\<forall>k < ?n. isl (the_lazy_definitions_fn self k)"
    using assms(2) None by (simp add: discovered_def)
  show ?thesis
  proof (cases "the_lazy_definitions_fn self ?n")
    case (Inl e)
    then have s': "s' = s\<lparr>trace := trace s @ [Discovery]\<rparr>"
      using assms(1) None by (auto simp: get_lazy_definitions_def)
    have "\<forall>k < Suc ?n. isl (the_lazy_definitions_fn self k)"
      using old Inl by (auto simp: less_Suc_eq)
    then show ?thesis using s' None by (simp add: discovered_def)
  next
    case (Inr ds)
    obtain u where v: "validate_lazy self ds
        (s\<lparr>lazy_definitions := Some ds, trace := trace s @ [Discovery]\<rparr>) = (u, s')"
      using assms(1) None Inr
      by (auto simp: get_lazy_definitions_def split: sum.splits prod.splits)
    have "lazy_definitions s' = Some ds" "count_list (trace s') Discovery = Suc ?n"
      using validate_lazy_frame(2)[OF v] validate_lazy_frame(4)[OF v] by simp_all
    then show ?thesis using old Inr by (auto simp: discovered_def)
  qed
qed

lemma get_lazy_names: 
  assumes "get_lazy_definitions self s = (r, s')"
  shows "definition_names s' = definition_names s"
  using get_lazy_shape[OF assms] by auto

lemma get_lazy_keeps:
  assumes "get_lazy_definitions self s = (r, s')" and "lazy_definitions s = Some ds"
  shows "s' = s"
  using assms by (simp add: get_lazy_definitions_def)

lemma inv_get_names:
  assumes "get_definition_names self s = (r, s')" and "inv self s"
  shows "inv self s'"
proof (cases "truthy (definition_names s)")
  case True
  then have "s' = s" using assms(1) by (simp add: get_definition_names_def)
  then show ?thesis using assms(2) by simp
next
  case False
  obtain r1 s1 where g: "get_lazy_definitions self s = (r1, s1)"
    by (cases "get_lazy_definitions self s")
  have d1: "discovered self s1"
    using discovered_get_lazy[OF g] assms(2) by (simp add: inv_def)
  have n1: "names_ok self s1"
  proof (cases "lazy_definitions s")
    case None
    then have "definition_names s = None" using assms(2) 
      by (cases "definition_names s") (auto simp: inv_def names_ok_def)
    then show ?thesis using get_lazy_names[OF g] by (simp add: names_ok_def)
  next
    case (Some ds)
    then show ?thesis using get_lazy_keeps[OF g Some] assms(2) by (simp add: inv_def)
  qed
  show ?thesis
  proof (cases r)
    case (Inl e)
    then have "s' = s1" using assms(1) False g
      by (auto simp: get_definition_names_def Let_def split: sum.splits)
    then show ?thesis using d1 n1 by (simp add: inv_def)
  next
    case (Inr ns)
    from get_names_compute[OF False assms(1)[unfolded Inr]] g obtain ds lz where
      r1: "r1 = Inr ds" and c: "collect_lazy_names self ds [] = Inr lz"
      and ns: "ns = map fst (definitions self) @ lz"
      and s': "s' = s1\<lparr>definition_names := Some ns, trace := trace s1 @ [Names]\<rparr>"
      by auto
    have l1: "lazy_definitions s1 = Some ds" using get_lazy_success g r1 by blast
    have "discovered self s'" using d1 s' by (auto simp: discovered_def split: option.splits)
    moreover have "names_ok self s'" using s' l1 c ns by (simp add: names_ok_def)
    ultimately show ?thesis by (simp add: inv_def)
  qed
qed

lemma load_shape:
  assumes "load_definition self n s = (r, s')"
  shows "\<exists>c es. s' = s\<lparr>definition_cache := c, trace := trace s @ es\<rparr> \<and>
           Discovery \<notin> set es \<and> Names \<notin> set es"
proof (cases "map_of (definitions self) n")
  case None
  then have "s' = s\<lparr>definition_cache := definition_cache s, trace := trace s @ []\<rparr>"
    using assms by (simp add: load_definition_def)
  then show ?thesis by (metis empty_iff list.set(1))
next
  case (Some src)
  show ?thesis
  proof (cases src)
    case (Definition d)
    then have "s' = s \<or> s' = s\<lparr>definition_cache := definition_cache s', trace := trace s @ [Validation d]\<rparr>"
      using assms Some by (auto simp: load_definition_def split: if_splits sum.splits)
    then show ?thesis
    proof
      assume "s' = s"
      then have "s' = s\<lparr>definition_cache := definition_cache s, trace := trace s @ []\<rparr>" by simp
      then show ?thesis by (metis empty_iff list.set(1))
    next
      assume "s' = s\<lparr>definition_cache := definition_cache s', trace := trace s @ [Validation d]\<rparr>"
      moreover have "Discovery \<notin> set [Validation d] \<and> Names \<notin> set [Validation d]" by simp
      ultimately show ?thesis by blast
    qed
  next
    case (Callable f)
    let ?s0 = "s\<lparr>trace := trace s @ [Factory n]\<rparr>"
    show ?thesis
    proof (cases "f (count_list (trace s) (Factory n))")
      case (Inl e)
      then have "s' = s\<lparr>definition_cache := definition_cache s, trace := trace s @ [Factory n]\<rparr>"
        using assms Some Callable by (auto simp: load_definition_def)
      moreover have "Discovery \<notin> set [Factory n :: 'a event] \<and> Names \<notin> set [Factory n :: 'a event]"
        by simp
      ultimately show ?thesis by blast
    next
      case (Inr d)
      obtain u where v: "validate_and_cache_definition self d n ?s0 = (u, s')"
        using assms Some Callable Inr
        by (auto simp: load_definition_def split: sum.splits prod.splits)
      from vcd_shape[OF v] obtain c es where
        "s' = ?s0\<lparr>definition_cache := c, trace := trace ?s0 @ es\<rparr>"
        and e: "Discovery \<notin> set es" "Names \<notin> set es" by blast
      then have "s' = s\<lparr>definition_cache := c, trace := trace s @ (Factory n # es)\<rparr>" by simp
      moreover have "Discovery \<notin> set (Factory n # es) \<and> Names \<notin> set (Factory n # es)"
        using e by simp
      ultimately show ?thesis by blast
    qed
  qed
qed

lemma load_same_core:
  assumes "load_definition self n s = (r, s')"
  shows "same_core s s'"
  using load_shape[OF assms] by (auto simp: same_core_def)

lemma has_definition_eq:
  "get_definition_names self s = (r, s') \<Longrightarrow>
   has_definition self n s = (map_sum id (\<lambda>names. n \<in> set names) r, s')"
  by (cases r) (simp_all add: has_definition_def)

lemma inv_get_definition:
  assumes "get_definition self n s = (r, s')" and "inv self s"
  shows "inv self s'"
proof -
  obtain r1 s1 where g: "get_definition_names self s = (r1, s1)"
    by (cases "get_definition_names self s")
  have i1: "inv self s1" using inv_get_names[OF g assms(2)] .
  note h = has_definition_eq[OF g, of n]
  show ?thesis
  proof (cases r1)
    case (Inl e)
    then have "s' = s1" using assms(1) h by (simp add: get_definition_def)
    then show ?thesis using i1 by simp
  next
    case (Inr names)
    show ?thesis
    proof (cases "n \<in> set names")
      case False
      obtain r2 s2 where g2: "get_definition_names self s1 = (r2, s2)"
        by (cases "get_definition_names self s1")
      have "s' = s2" using assms(1) h Inr False g2
        by (auto simp: get_definition_def split: sum.splits)
      then show ?thesis using inv_get_names[OF g2 i1] by simp
    next
      case True
      show ?thesis
      proof (cases "definition_cache s1 n")
        case (Some d)
        then have "s' = s1" using assms(1) h Inr True by (simp add: get_definition_def)
        then show ?thesis using i1 by simp
      next
        case None
        then have "load_definition self n s1 = (r, s')"
          using assms(1) h Inr True by (simp add: get_definition_def)
        then show ?thesis using load_same_core inv_same_core i1 by blast
      qed
    qed
  qed
qed

lemma inv_map_get_definition:
  assumes "map_get_definition self ns s = (r, s')" and "inv self s"
  shows "inv self s'"
  using assms
proof (induction ns arbitrary: s r s')
  case Nil
  then show ?case by simp
next
  case (Cons n ns)
  obtain r1 s1 where g: "get_definition self n s = (r1, s1)"
    by (cases "get_definition self n s")
  have i1: "inv self s1" using inv_get_definition[OF g Cons.prems(2)] .
  show ?case
  proof (cases r1)
    case (Inl e)
    then show ?thesis using Cons.prems(1) g i1 by simp
  next
    case (Inr d)
    obtain r2 s2 where m: "map_get_definition self ns s1 = (r2, s2)"
      by (cases "map_get_definition self ns s1")
    have "s' = s2" using Cons.prems(1) g Inr m by (auto split: sum.splits)
    then show ?thesis using Cons.IH[OF m i1] by simp
  qed
qed

lemma inv_get_all:
  assumes "get_all_definitions self s = (r, s')" and "inv self s"
  shows "inv self s'"
proof (cases "all_definitions s")
  case (Some ds)
  then show ?thesis using assms by (simp add: get_all_definitions_def)
next
  case None
  obtain r1 s1 where g: "get_definition_names self s = (r1, s1)"
    by (cases "get_definition_names self s")
  have i1: "inv self s1" using inv_get_names[OF g assms(2)] .
  show ?thesis
  proof (cases r1)
    case (Inl e)
    then show ?thesis using assms(1) None g i1 by (simp add: get_all_definitions_def)
  next
    case (Inr names)
    obtain r2 s2 where m: "map_get_definition self names s1 = (r2, s2)"
      by (cases "map_get_definition self names s1")
    have i2: "inv self s2" using inv_map_get_definition[OF m i1] .
    have "s' = s2 \<or> (\<exists>a. s' = s2\<lparr>all_definitions := a\<rparr>)"
      using assms(1) None g Inr m
      by (auto simp: get_all_definitions_def Let_def split: sum.splits)
    then have "same_core s2 s'" by (auto simp: same_core_def)
    then show ?thesis using inv_same_core i2 by blast
  qed
qed

lemma inv_perform: "inv self s \<Longrightarrow> inv self (snd (perform self c s))"
proof (cases c)
  case ListNames
  assume "inv self s"
  then show ?thesis using ListNames inv_get_names[of self s]
    by (cases "get_definition_names self s") simp
next
  case (HasName n)
  assume "inv self s"
  then show ?thesis using HasName inv_get_names[of self s] has_definition_state[of self n s]
    by (cases "get_definition_names self s") simp
next
  case (Resolve n)
  assume "inv self s"
  then show ?thesis using Resolve inv_get_definition[of self n s]
    by (cases "get_definition self n s") simp
next
  case GetAll
  assume "inv self s"
  then show ?thesis using GetAll inv_get_all[of self s]
    by (cases "get_all_definitions self s") simp
qed

lemma inv_run: "inv self s \<Longrightarrow> inv self (run self cs s)"
  by (induction cs arbitrary: s) (simp_all add: inv_perform)

lemma init_state: "init self = Inr s0 \<Longrightarrow> s0 = initial_state"
  by (auto simp: init_def split: option.splits)

lemma inv_reached: "init self = Inr s0 \<Longrightarrow> inv self (run self cs s0)"
  using init_state inv_initial inv_run by blast

lemma get_names_result:
  assumes "get_definition_names self s = (Inr ns, s')"
  shows "definition_names s' = Some ns"
proof (cases "truthy (definition_names s)")
  case True
  then show ?thesis using assms
    by (cases "definition_names s") (auto simp: get_definition_names_def)
next
  case False
  from get_names_compute[OF False assms] show ?thesis by auto
qed

lemma get_names_of_empty:
  assumes "inv self s" and "\<forall>k. the_lazy_definitions_fn self k = Inr []"
  shows "fst (get_definition_names self s) = Inr (map fst (definitions self))"
proof (cases "truthy (definition_names s)")
  case True
  then obtain ns where ns: "definition_names s = Some ns" by (cases "definition_names s") auto
  then obtain ds lz where l: "lazy_definitions s = Some ds"
    and c: "collect_lazy_names self ds [] = Inr lz" and e: "ns = map fst (definitions self) @ lz"
    using assms(1) by (auto simp: inv_def names_ok_def)
  have "ds = []" using assms l by (auto simp: inv_def discovered_def)
  then have "lz = []" using c by simp
  then show ?thesis using True ns e by (simp add: get_definition_names_def)
next
  case False
  have "\<exists>s1. get_lazy_definitions self s = (Inr [], s1)"
  proof (cases "lazy_definitions s")
    case None
    then show ?thesis using assms(2) by (simp add: get_lazy_definitions_def)
  next
    case (Some ds)
    then have "ds = []" using assms by (auto simp: inv_def discovered_def)
    then show ?thesis using Some by (simp add: get_lazy_definitions_def)
  qed
  then show ?thesis using False by (auto simp: get_definition_names_def Let_def)
qed

subsection \<open>The name list\<close>

text \<open>
  Claim C2. On an index that was constructed and then used in any way, whenever
  \<^verbatim>\<open>get_definition_names\<close> returns, it returns the keys of the \<^verbatim>\<open>definitions\<close> mapping
  in their order, followed by the names of the lazy definitions that are not keys of the
  mapping, in the order the lazy-definitions function returned them; the lazy
  definitions are the memoized list, which a call of that function returned. When there
  is no lazy-definitions function, or it returns the empty list, the call does return,
  and returns exactly the keys.
\<close>

theorem names_are_keys_then_lazy_names:
  assumes "init self = Inr s0"
  shows "(\<forall>names. fst (get_definition_names self (run self cs s0)) = Inr names \<longrightarrow>
            (\<exists>ds k. lazy_definitions (snd (get_definition_names self (run self cs s0))) = Some ds \<and>
               the_lazy_definitions_fn self k = Inr ds \<and>
               names = map fst (definitions self) @
                 filter (\<lambda>n. n \<notin> fst ` set (definitions self)) (map name ds))) \<and>
         (lazy_definitions_fn self = None \<or> (\<forall>k. the_lazy_definitions_fn self k = Inr []) \<longrightarrow>
            fst (get_definition_names self (run self cs s0)) = Inr (map fst (definitions self)))"
proof (intro conjI allI impI)
  fix names
  let ?s = "run self cs s0"
  assume r: "fst (get_definition_names self ?s) = Inr names"
  obtain s' where g: "get_definition_names self ?s = (Inr names, s')"
    using r by (cases "get_definition_names self ?s") simp
  have i: "inv self s'" using inv_get_names[OF g inv_reached[OF assms]] .
  have "definition_names s' = Some names" using get_names_result[OF g] .
  then obtain ds lz where l: "lazy_definitions s' = Some ds"
    and c: "collect_lazy_names self ds [] = Inr lz" and e: "names = map fst (definitions self) @ lz"
    using i by (auto simp: inv_def names_ok_def)
  obtain k where "the_lazy_definitions_fn self k = Inr ds"
    using i l by (auto simp: inv_def discovered_def)
  moreover have "lz = filter (\<lambda>n. n \<notin> fst ` set (definitions self)) (map name ds)"
    using collect_lazy_names_eq[OF c] by simp
  ultimately show "\<exists>ds k. lazy_definitions (snd (get_definition_names self ?s)) = Some ds \<and>
               the_lazy_definitions_fn self k = Inr ds \<and>
               names = map fst (definitions self) @
                 filter (\<lambda>n. n \<notin> fst ` set (definitions self)) (map name ds)"
    using g l e by auto
next
  assume "lazy_definitions_fn self = None \<or> (\<forall>k. the_lazy_definitions_fn self k = Inr [])"
  then have "\<forall>k. the_lazy_definitions_fn self k = Inr []"
    by (auto simp: the_lazy_definitions_fn_def)
  then show "fst (get_definition_names self (run self cs s0)) = Inr (map fst (definitions self))"
    using get_names_of_empty inv_reached[OF assms] by blast
qed

theorem names_are_keys_then_lazy_names_witness:
  "init example_index = Inr initial_state \<and>
   fst (get_definition_names example_index (run example_index [Resolve ''b''] initial_state))
     = Inr [''a'', ''b'', ''c''] \<and>
   (\<exists>ds k. lazy_definitions
        (snd (get_definition_names example_index (run example_index [Resolve ''b''] initial_state)))
        = Some ds \<and>
      the_lazy_definitions_fn example_index k = Inr ds \<and>
      [''a'', ''b'', ''c''] = map fst (definitions example_index) @
         filter (\<lambda>n. n \<notin> fst ` set (definitions example_index)) (map name ds)) \<and>
   init eager_index = Inr initial_state \<and>
   lazy_definitions_fn eager_index = None \<and>
   fst (get_definition_names eager_index (run eager_index [Resolve ''b''] initial_state))
     = Inr [''a'', ''b'']"
proof -
  have i: "init example_index = Inr initial_state"
    by (simp add: method_defs example_defs)
  have n: "fst (get_definition_names example_index (run example_index [Resolve ''b''] initial_state))
     = Inr [''a'', ''b'', ''c'']"
    by (simp add: method_defs example_defs)
  have j: "init eager_index = Inr initial_state"
    by (simp add: method_defs example_defs)
  have a: "lazy_definitions_fn eager_index = None"
    by (simp add: example_defs)
  have k: "map fst (definitions eager_index) = [''a'', ''b'']"
    by (simp add: example_defs)
  show ?thesis
    using i n j a k
      names_are_keys_then_lazy_names[OF i, of "[Resolve ''b'']"]
      names_are_keys_then_lazy_names[OF j, of "[Resolve ''b'']"]
    by simp
qed

subsection \<open>Calls of the lazy-definitions function\<close>




lemma get_names_again:
  assumes "get_definition_names self s = (Inr ns, s1)"
  shows "\<exists>s2. get_definition_names self s1 = (Inr ns, s2) \<and> (ns \<noteq> [] \<longrightarrow> s2 = s1)"
proof (cases ns)
  case (Cons a as)
  then have "definition_names s1 = Some (a # as)" using get_names_result[OF assms] by simp
  then show ?thesis using Cons by (simp add: get_definition_names_def)
next
  case Nil
  have n1: "definition_names s1 = Some []" using get_names_result[OF assms] Nil by simp
  have "\<not> truthy (definition_names s)"
  proof
    assume t: "truthy (definition_names s)"
    then have "definition_names s = Some []" using assms Nil
      by (cases "definition_names s") (auto simp: get_definition_names_def)
    then show False using t by simp
  qed
  from get_names_compute[OF this assms] obtain ds lz s0 where
    g: "get_lazy_definitions self s = (Inr ds, s0)" and c: "collect_lazy_names self ds [] = Inr lz"
    and e: "ns = map fst (definitions self) @ lz"
    and s1: "s1 = s0\<lparr>definition_names := Some ns, trace := trace s0 @ [Names]\<rparr>"
    by blast
  have "lazy_definitions s1 = Some ds" using get_lazy_success[OF g] s1 by simp
  then have "get_lazy_definitions self s1 = (Inr ds, s1)" by (rule get_lazy_memo)
  then show ?thesis using n1 c e Nil by (simp add: get_definition_names_def)
qed

subsection \<open>An empty name list is computed again\<close>

text \<open>
  Claim C9 asks that the name list be computed once. Line 80 tests the memoized list
  for truth, not for \<^verbatim>\<open>None\<close>, so an empty name list is memoized and then computed
  again by every call: on \<open>empty_index\<close> the first \<^verbatim>\<open>get_definition_names\<close> returns
  \<^verbatim>\<open>[]\<close> and leaves it in the attribute, and after a second call line 94 has assigned
  a name list twice.
\<close>

theorem empty_name_list_computed_twice:
  "init empty_index = Inr initial_state \<and>
   fst (get_definition_names empty_index initial_state) = Inr [] \<and>
   definition_names (snd (get_definition_names empty_index initial_state)) = Some [] \<and>
   fst (get_definition_names empty_index (snd (get_definition_names empty_index initial_state)))
     = Inr [] \<and>
   count_list (trace (run empty_index [ListNames, ListNames] initial_state)) Names = 2"
  by (simp add: method_defs example_defs empty_index_def)

text \<open>A name list that is not empty is returned from the attribute, and nothing changes.\<close>

lemma nonempty_name_list_memoized:
  assumes "get_definition_names self s = (Inr ns, s1)" and "ns \<noteq> []"
  shows "get_definition_names self s1 = (Inr ns, s1)"
  using get_names_again[OF assms(1)] assms(2) by auto

lemma get_definition_found:
  assumes "get_definition_names self s = (Inr names, s1)" and "n \<in> set names"
  shows "get_definition self n s =
     (case definition_cache s1 n of Some d \<Rightarrow> (Inr d, s1) | None \<Rightarrow> load_definition self n s1)"
  using assms by (simp add: get_definition_def has_definition_def)

subsection \<open>A definition object in the mapping\<close>

text \<open>
  Claim C3. Let \<^verbatim>\<open>get_definition\<close> be called for a name that the name list has, that
  is not in the cache once the name list is there, and whose value in the mapping is an
  instance of the definition class; let the validation function return \<open>v\<close> for it.
  Then the call returns the object of the mapping itself, not \<open>v\<close>, and leaves the
  cache as it was with \<open>v\<close> stored under the name.
\<close>

theorem instance_is_returned_and_its_validation_cached:
  assumes "fst (get_definition_names self s) = Inr names"
    and "n \<in> set names"
    and "definition_cache (snd (get_definition_names self s)) n = None"
    and "map_of (definitions self) n = Some (Definition d)"
    and "definition_class self d"
    and "validation_fn self d = Inr v"
  shows "fst (get_definition self n s) = Inr d \<and>
         definition_cache (snd (get_definition self n s)) =
           (definition_cache (snd (get_definition_names self s)))(n \<mapsto> v)"
proof -
  obtain s1 where g: "get_definition_names self s = (Inr names, s1)"
    using assms(1) by (cases "get_definition_names self s") simp
  have "get_definition self n s = load_definition self n s1"
    using get_definition_found[OF g assms(2)] assms(3) g by simp
  then show ?thesis using assms(4-6) g by (simp add: load_definition_def)
qed

theorem instance_is_returned_and_its_validation_cached_witness:
  "fst (get_definition_names stamping_index initial_state) = Inr [''a'', ''b'', ''c''] \<and>
   ''a'' \<in> set [''a'', ''b'', ''c''] \<and>
   definition_cache (snd (get_definition_names stamping_index initial_state)) ''a'' = None \<and>
   map_of (definitions stamping_index) ''a'' = Some (Definition job_a) \<and>
   definition_class stamping_index job_a \<and>
   validation_fn stamping_index job_a = Inr \<lparr>name = ''a'', body = 101\<rparr> \<and>
   fst (get_definition stamping_index ''a'' initial_state) = Inr job_a \<and>
   definition_cache (snd (get_definition stamping_index ''a'' initial_state)) =
     (definition_cache (snd (get_definition_names stamping_index initial_state)))
       (''a'' \<mapsto> \<lparr>name = ''a'', body = 101\<rparr>)"
proof -
  have 1: "fst (get_definition_names stamping_index initial_state) = Inr [''a'', ''b'', ''c'']"
    by (simp add: method_defs example_defs stamping_index_def)
  have 2: "''a'' \<in> set [''a'', ''b'', ''c'']" by simp
  have 3: "definition_cache (snd (get_definition_names stamping_index initial_state)) ''a'' = None"
    by (simp add: method_defs example_defs stamping_index_def)
  have 4: "map_of (definitions stamping_index) ''a'' = Some (Definition job_a)"
    by (simp add: example_defs stamping_index_def)
  have 5: "definition_class stamping_index job_a"
    by (simp add: example_defs stamping_index_def)
  have 6: "validation_fn stamping_index job_a = Inr \<lparr>name = ''a'', body = 101\<rparr>"
    by (simp add: example_defs stamping_index_def)
  show ?thesis
    using 1 2 3 4 5 6 instance_is_returned_and_its_validation_cached[OF 1 2 3 4 5 6]
    by blast
qed

subsection \<open>A factory that returns a definition of another name\<close>

text \<open>
  Claim C5. Let \<^verbatim>\<open>get_definition\<close> be called for a name that the name list has, that
  is not in the cache once the name list is there, and whose value in the mapping is a
  factory; let the factory return an instance of the definition class whose name is not
  the key. Then the call raises the check error of line 158, and the cache is what it
  was: it has no entry for the key.
\<close>

theorem factory_name_mismatch_raises_and_caches_nothing:
  assumes "fst (get_definition_names self s) = Inr names"
    and "n \<in> set names"
    and "definition_cache (snd (get_definition_names self s)) n = None"
    and "map_of (definitions self) n = Some (Callable f)"
    and "f (count_list (trace (snd (get_definition_names self s))) (Factory n)) = Inr d"
    and "definition_class self d"
    and "name d \<noteq> n"
  shows "fst (get_definition self n s) = Inl (CheckError (BadConstructorName n (name d))) \<and>
         definition_cache (snd (get_definition self n s)) n = None \<and>
         definition_cache (snd (get_definition self n s)) =
           definition_cache (snd (get_definition_names self s))"
proof -
  obtain s1 where g: "get_definition_names self s = (Inr names, s1)"
    using assms(1) by (cases "get_definition_names self s") simp
  have "get_definition self n s = load_definition self n s1"
    using get_definition_found[OF g assms(2)] assms(3) g by simp
  then show ?thesis using assms(3-7) g
    by (simp add: load_definition_def validate_and_cache_definition_unfold)
qed

theorem factory_name_mismatch_raises_and_caches_nothing_witness:
  "fst (get_definition_names misnamed_index initial_state) = Inr [''a'', ''b''] \<and>
   ''b'' \<in> set [''a'', ''b''] \<and>
   definition_cache (snd (get_definition_names misnamed_index initial_state)) ''b'' = None \<and>
   map_of (definitions misnamed_index) ''b'' = Some (Callable (\<lambda>_. Inr job_c)) \<and>
   definition_class misnamed_index job_c \<and>
   name job_c \<noteq> ''b'' \<and>
   fst (get_definition misnamed_index ''b'' initial_state)
     = Inl (CheckError (BadConstructorName ''b'' ''c'')) \<and>
   definition_cache (snd (get_definition misnamed_index ''b'' initial_state)) ''b'' = None"
proof -
  have 1: "fst (get_definition_names misnamed_index initial_state) = Inr [''a'', ''b'']"
    by (simp add: method_defs example_defs misnamed_index_def)
  have 2: "''b'' \<in> set [''a'', ''b'']" by simp
  have 3: "definition_cache (snd (get_definition_names misnamed_index initial_state)) ''b'' = None"
    by (simp add: method_defs example_defs misnamed_index_def)
  have 4: "map_of (definitions misnamed_index) ''b'' = Some (Callable (\<lambda>_. Inr job_c))"
    by (simp add: example_defs misnamed_index_def)
  have 5: "(\<lambda>_. Inr job_c) (count_list (trace (snd (get_definition_names misnamed_index initial_state))) (Factory ''b'')) = (Inr job_c :: error + nat defn)"
    by simp
  have 6: "definition_class misnamed_index job_c"
    by (simp add: example_defs misnamed_index_def)
  have 7: "name job_c \<noteq> ''b''" by (simp add: example_defs)
  have 8: "name job_c = ''c''" by (simp add: example_defs)
  show ?thesis
    using 1 2 3 4 6 7 8 factory_name_mismatch_raises_and_caches_nothing[OF 1 2 3 4 5 6 7]
    by simp
qed

lemma sublist_join:
  "x \<in> set xs \<Longrightarrow> sublist x (join sep xs)"
proof (induction sep xs rule: join.induct)
  case (1 sep)
  then show ?case by simp
next
  case (2 sep y)
  then show ?case by simp
next
  case (3 sep y z zs)
  show ?case
  proof (cases "x = y")
    case True
    then show ?thesis by simp
  next
    case False
    then have "sublist x (join sep (z # zs))" using 3 by simp
    then have "sublist x ((y @ sep) @ join sep (z # zs))"
      by (rule sublist_order.order.trans) (rule sublist_append_leftI)
    then show ?thesis by simp
  qed
qed

lemma message_lists_names:
  assumes "m \<in> set found_names"
  shows "sublist (CHR 0x27 # m @ [CHR 0x27]) (not_found_message self n found_names)"
proof -
  have q: "quoted m = CHR 0x27 # m @ [CHR 0x27]" by (simp add: quoted_def)
  have "sublist (quoted m) (join '', '' (map quoted found_names))"
    using assms by (intro sublist_join) simp
  then obtain ps ss where "join '', '' (map quoted found_names) = ps @ quoted m @ ss"
    by (auto simp: sublist_def)
  then have "not_found_message self n found_names =
      (''Could not find '' @ definition_kind self @ '' '' @ quoted n @ ''. Found: '' @ ps)
        @ quoted m @ (ss @ ''.'')"
    by (simp add: not_found_message_def)
  then have "sublist (quoted m) (not_found_message self n found_names)"
    by (metis sublist_appendI)
  then show ?thesis using q by simp
qed

subsection \<open>A name the index does not have\<close>

text \<open>
  Claim C6. When \<^verbatim>\<open>has_definition\<close> answers \<^verbatim>\<open>False\<close> for a name, that is, when
  \<^verbatim>\<open>get_definition_names\<close> returns a list that does not have the name,
  \<^verbatim>\<open>get_definition\<close> raises \<^verbatim>\<open>DagsterInvariantViolationError\<close> with the message of
  lines 119 to 129 built from that list, and every name of the list occurs in the
  message, character by character, with a single quote (the character of code 39, written
  \<open>CHR 0x27\<close>) before it and one after it.
\<close>

theorem missing_name_raises_with_all_names:
  assumes "fst (has_definition self n s) = Inr False"
  shows "\<exists>names. fst (get_definition_names self s) = Inr names \<and> n \<notin> set names \<and>
           fst (get_definition self n s) =
             Inl (DagsterInvariantViolationError (not_found_message self n names)) \<and>
           (\<forall>m \<in> set names.
              sublist (CHR 0x27 # m @ [CHR 0x27]) (not_found_message self n names))"
proof -
  obtain r s1 where g: "get_definition_names self s = (r, s1)"
    by (cases "get_definition_names self s")
  from assms g obtain names where r: "r = Inr names" and n: "n \<notin> set names"
    by (cases r) (auto simp: has_definition_def)
  from get_names_again[OF g[unfolded r]] obtain s2 where
    g2: "get_definition_names self s1 = (Inr names, s2)" by blast
  have "get_definition self n s =
      (Inl (DagsterInvariantViolationError (not_found_message self n names)), s2)"
    using g r n g2 by (simp add: get_definition_def has_definition_def)
  then show ?thesis using g r n message_lists_names by fastforce
qed

theorem missing_name_raises_with_all_names_witness:
  "fst (has_definition example_index ''missing'' initial_state) = Inr False \<and>
   fst (get_definition_names example_index initial_state) = Inr [''a'', ''b'', ''c''] \<and>
   fst (get_definition example_index ''missing'' initial_state) =
     Inl (DagsterInvariantViolationError
       (not_found_message example_index ''missing'' [''a'', ''b'', ''c''])) \<and>
   ''b'' \<in> set [''a'', ''b'', ''c''] \<and>
   sublist (CHR 0x27 # ''b'' @ [CHR 0x27])
     (not_found_message example_index ''missing'' [''a'', ''b'', ''c'']) \<and>
   not_found_message example_index ''missing'' [''a'', ''b'', ''c''] =
     ''Could not find job '' @ [CHR 0x27] @ ''missing'' @ [CHR 0x27] @ ''. Found: ''
       @ [CHR 0x27] @ ''a'' @ [CHR 0x27] @ '', '' @ [CHR 0x27] @ ''b'' @ [CHR 0x27] @ '', ''
       @ [CHR 0x27] @ ''c'' @ [CHR 0x27] @ ''.''"
proof -
  have 1: "fst (has_definition example_index ''missing'' initial_state) = Inr False"
    by (simp add: method_defs example_defs)
  have 2: "not_found_message example_index ''missing'' [''a'', ''b'', ''c''] =
     ''Could not find job '' @ [CHR 0x27] @ ''missing'' @ [CHR 0x27] @ ''. Found: ''
       @ [CHR 0x27] @ ''a'' @ [CHR 0x27] @ '', '' @ [CHR 0x27] @ ''b'' @ [CHR 0x27] @ '', ''
       @ [CHR 0x27] @ ''c'' @ [CHR 0x27] @ ''.''"
    by (simp add: not_found_message_def quoted_def example_defs)
  have 3: "fst (get_definition_names example_index initial_state) = Inr [''a'', ''b'', ''c'']"
    by (simp add: method_defs example_defs)
  have 4: "''b'' \<in> set [''a'', ''b'', ''c'']" by simp
  from missing_name_raises_with_all_names[OF 1] obtain names where
    n: "fst (get_definition_names example_index initial_state) = Inr names"
    and e: "fst (get_definition example_index ''missing'' initial_state) =
        Inl (DagsterInvariantViolationError (not_found_message example_index ''missing'' names))"
    and m: "\<forall>m \<in> set names.
        sublist (CHR 0x27 # m @ [CHR 0x27]) (not_found_message example_index ''missing'' names)"
    by blast
  have names: "names = [''a'', ''b'', ''c'']" using n 3 by simp
  have 5: "sublist (CHR 0x27 # ''b'' @ [CHR 0x27])
      (not_found_message example_index ''missing'' [''a'', ''b'', ''c''])"
    using bspec[OF m[unfolded names] 4] .
  show ?thesis
    by (intro conjI) (rule 1, rule 3, rule e[unfolded names], rule 4, rule 5, rule 2)
qed

section \<open>Once a name is resolved\<close>
















subsection \<open>Resolving a name twice\<close>




section \<open>All definitions\<close>

lemma get_names_all:
  assumes "get_definition_names self s = (r, s')"
  shows "all_definitions s' = all_definitions s"
  using get_names_shape[OF assms] by auto

lemma load_all:
  assumes "load_definition self n s = (r, s')"
  shows "all_definitions s' = all_definitions s"
  using load_shape[OF assms] by auto

lemma get_definition_all:
  assumes "get_definition self n s = (r, s')"
  shows "all_definitions s' = all_definitions s"
proof -
  obtain r1 s1 where g: "get_definition_names self s = (r1, s1)"
    by (cases "get_definition_names self s")
  obtain r2 s2 where g2: "get_definition_names self s1 = (r2, s2)"
    by (cases "get_definition_names self s1")
  have "s' = s1 \<or> s' = s2 \<or> load_definition self n s1 = (r, s')"
    using assms g g2
    by (auto simp: get_definition_def has_definition_def split: sum.splits bool.splits option.splits)
  then show ?thesis using get_names_all[OF g] get_names_all[OF g2] load_all by metis
qed

lemma map_get_definition_all:
  assumes "map_get_definition self ns s = (r, s')"
  shows "all_definitions s' = all_definitions s"
  using assms
proof (induction ns arbitrary: s r s')
  case Nil
  then show ?case by simp
next
  case (Cons n ns)
  obtain r1 s1 where g: "get_definition self n s = (r1, s1)"
    by (cases "get_definition self n s")
  obtain r2 s2 where m: "map_get_definition self ns s1 = (r2, s2)"
    by (cases "map_get_definition self ns s1")
  have "s' = s1 \<or> s' = s2" using Cons.prems g m by (auto split: sum.splits)
  then show ?case using get_definition_all[OF g] Cons.IH[OF m] by auto
qed

lemma map_get_definition_length:
  assumes "map_get_definition self ns s = (Inr rs, s')"
  shows "length rs = length ns"
  using assms
proof (induction ns arbitrary: s rs s')
  case Nil
  then show ?case by simp
next
  case (Cons n ns)
  then show ?case by (auto split: prod.splits sum.splits)
qed

lemma get_all_computes:
  assumes "all_definitions s = None" and "get_all_definitions self s = (Inr ds, s')"
  shows "\<exists>names s1 rs s2. get_definition_names self s = (Inr names, s1) \<and>
           map_get_definition self names s1 = (Inr rs, s2) \<and>
           ds = sort_key name rs \<and> s' = s2\<lparr>all_definitions := Some ds\<rparr>"
  using assms
  by (auto simp: get_all_definitions_def Let_def split: prod.splits sum.splits)

lemma get_all_result:
  assumes "get_all_definitions self s = (Inr ds, s')"
  shows "all_definitions s' = Some ds"
proof (cases "all_definitions s")
  case None
  from get_all_computes[OF None assms] show ?thesis by auto
next
  case (Some a)
  then show ?thesis using assms by (simp add: get_all_definitions_def)
qed

lemma all_sorted_get_all:
  assumes "get_all_definitions self s = (r, s')" and "all_sorted s"
  shows "all_sorted s'"
proof (cases "all_definitions s")
  case (Some a)
  then show ?thesis using assms by (simp add: get_all_definitions_def)
next
  case None
  show ?thesis
  proof (cases r)
    case (Inr ds)
    from get_all_computes[OF None assms(1)[unfolded Inr]] show ?thesis
      by (auto simp: all_sorted_def)
  next
    case (Inl e)
    obtain r1 s1 where g: "get_definition_names self s = (r1, s1)"
      by (cases "get_definition_names self s")
    obtain r2 s2 where m: "map_get_definition self (projr r1) s1 = (r2, s2)"
      by (cases "map_get_definition self (projr r1) s1")
    have "s' = s1 \<or> s' = s2" using assms(1) None Inl g m
      by (auto simp: get_all_definitions_def Let_def split: sum.splits)
    then have "all_definitions s' = None"
      using get_names_all[OF g] map_get_definition_all[OF m] None by auto
    then show ?thesis by (simp add: all_sorted_def)
  qed
qed

lemma all_sorted_perform: "all_sorted s \<Longrightarrow> all_sorted (snd (perform self c s))"
proof (cases c)
  case ListNames
  assume "all_sorted s"
  then show ?thesis using ListNames get_names_all[of self s]
    by (cases "get_definition_names self s") (simp add: all_sorted_def)
next
  case (HasName n)
  assume "all_sorted s"
  then show ?thesis using HasName get_names_all[of self s] has_definition_state[of self n s]
    by (cases "get_definition_names self s") (simp add: all_sorted_def)
next
  case (Resolve n)
  assume "all_sorted s"
  then show ?thesis using Resolve get_definition_all[of self n s]
    by (cases "get_definition self n s") (simp add: all_sorted_def)
next
  case GetAll
  assume "all_sorted s"
  then show ?thesis using GetAll all_sorted_get_all[of self s]
    by (cases "get_all_definitions self s") simp
qed

lemma all_sorted_run: "all_sorted s \<Longrightarrow> all_sorted (run self cs s)"
  by (induction cs arbitrary: s) (simp_all add: all_sorted_perform)

lemma all_sorted_reached: "init self = Inr s0 \<Longrightarrow> all_sorted (run self cs s0)"
  using init_state all_sorted_run[of initial_state self cs]
  by (fastforce simp: all_sorted_def initial_state_def)

subsection \<open>The sorted list and its memoization\<close>

text \<open>
  Claim C7. On an index that was constructed and then used in any way, whenever
  \<^verbatim>\<open>get_all_definitions\<close> returns a list, the list is sorted by the \<^verbatim>\<open>name\<close> attribute in
  the order of strings, and a second call right after it returns the same list and
  changes nothing: it calls no collaborator and sorts nothing. The call that computes
  the list (the attribute is unset) takes the name list, calls \<^verbatim>\<open>get_definition\<close> for
  each name in turn, and returns what these calls returned, one definition for each
  name, sorted by name.
\<close>

theorem all_definitions_sorted_and_memoized:
  assumes "init self = Inr s0"
    and "fst (get_all_definitions self (run self cs s0)) = Inr ds"
  shows "sorted (map name ds) \<and>
         get_all_definitions self (snd (get_all_definitions self (run self cs s0))) =
           (Inr ds, snd (get_all_definitions self (run self cs s0))) \<and>
         (all_definitions (run self cs s0) = None \<longrightarrow>
            (\<exists>names rs. fst (get_definition_names self (run self cs s0)) = Inr names \<and>
               fst (map_get_definition self names
                      (snd (get_definition_names self (run self cs s0)))) = Inr rs \<and>
               length rs = length names \<and> mset ds = mset rs \<and> ds = sort_key name rs))"
proof -
  let ?s = "run self cs s0"
  obtain s' where g: "get_all_definitions self ?s = (Inr ds, s')"
    using assms(2) by (cases "get_all_definitions self ?s") simp
  have a: "all_definitions s' = Some ds" using get_all_result[OF g] .
  have "all_sorted s'" using all_sorted_get_all[OF g all_sorted_reached[OF assms(1)]] .
  then have 1: "sorted (map name ds)" using a by (simp add: all_sorted_def)
  have 2: "get_all_definitions self s' = (Inr ds, s')"
    using a by (simp add: get_all_definitions_def)
  have 3: "\<exists>names rs. fst (get_definition_names self ?s) = Inr names \<and>
               fst (map_get_definition self names (snd (get_definition_names self ?s))) = Inr rs \<and>
               length rs = length names \<and> mset ds = mset rs \<and> ds = sort_key name rs"
    if n: "all_definitions ?s = None"
  proof -
    from get_all_computes[OF n g] obtain names s1 rs s2 where
      gn: "get_definition_names self ?s = (Inr names, s1)"
      and m: "map_get_definition self names s1 = (Inr rs, s2)"
      and d: "ds = sort_key name rs" by blast
    have "length rs = length names" using map_get_definition_length[OF m] .
    moreover have "mset ds = mset rs" using d by simp
    ultimately show ?thesis using gn m d by auto
  qed
  show ?thesis using 1 2 3 g by simp
qed

theorem all_definitions_sorted_and_memoized_witness:
  "init unsorted_index = Inr initial_state \<and>
   fst (get_all_definitions unsorted_index (run unsorted_index [] initial_state))
     = Inr [job_a, job_b, job_c] \<and>
   sorted (map name [job_a, job_b, job_c]) \<and>
   get_all_definitions unsorted_index
     (snd (get_all_definitions unsorted_index (run unsorted_index [] initial_state))) =
     (Inr [job_a, job_b, job_c],
      snd (get_all_definitions unsorted_index (run unsorted_index [] initial_state))) \<and>
   all_definitions (run unsorted_index [] initial_state) = None \<and>
   (\<exists>names rs. fst (get_definition_names unsorted_index (run unsorted_index [] initial_state))
        = Inr names \<and>
      fst (map_get_definition unsorted_index names
            (snd (get_definition_names unsorted_index (run unsorted_index [] initial_state))))
        = Inr rs \<and>
      length rs = length names \<and> mset [job_a, job_b, job_c] = mset rs \<and>
      [job_a, job_b, job_c] = sort_key name rs) \<and>
   fst (get_definition_names unsorted_index initial_state) = Inr [''c'', ''a'', ''b'']"
proof -
  have 1: "init unsorted_index = Inr initial_state"
    by (simp add: method_defs example_defs unsorted_index_def)
  have 2: "fst (get_all_definitions unsorted_index (run unsorted_index [] initial_state))
     = Inr [job_a, job_b, job_c]"
    by (simp add: method_defs example_defs unsorted_index_def)
  have 3: "fst (get_definition_names unsorted_index initial_state) = Inr [''c'', ''a'', ''b'']"
    by (simp add: method_defs example_defs unsorted_index_def)
  have 4: "all_definitions (run unsorted_index [] initial_state) = None"
    by (simp add: initial_state_def)
  note t = all_definitions_sorted_and_memoized[OF 1 2]
  show ?thesis
    by (intro conjI)
      (rule 1, rule 2, rule conjunct1[OF t], rule conjunct1[OF conjunct2[OF t]], rule 4,
       rule mp[OF conjunct2[OF conjunct2[OF t]] 4], rule 3)
qed

section \<open>Names that are both in the mapping and among the lazy definitions\<close>

lemma vcd_cache_other:
  assumes "validate_and_cache_definition self d k s = (r, s')" and "k' \<noteq> k"
  shows "definition_cache s' k' = definition_cache s k'"
  using assms
  by (auto simp: validate_and_cache_definition_unfold split: if_splits sum.splits)

lemma vcd_cached:
  assumes "validate_and_cache_definition self d k s = (Inr u, s')"
  shows "\<exists>v. validation_fn self d = Inr v \<and> definition_cache s' k = Some v"
  using assms
  by (auto simp: validate_and_cache_definition_unfold split: if_splits sum.splits)

lemma validate_lazy_cache_other:
  assumes "validate_lazy self ds s = (r, s')" and "k \<notin> name ` set ds"
  shows "definition_cache s' k = definition_cache s k"
  using assms
proof (induction ds arbitrary: s)
  case Nil
  then show ?case by simp
next
  case (Cons d ds)
  obtain r1 s1 where v: "validate_and_cache_definition self d (name d) s = (r1, s1)"
    by (cases "validate_and_cache_definition self d (name d) s")
  have c1: "definition_cache s1 k = definition_cache s k"
    using vcd_cache_other[OF v] Cons.prems(2) by auto
  show ?case
  proof (cases r1)
    case (Inl e)
    then show ?thesis using Cons.prems(1) v c1 by simp
  next
    case (Inr u)
    then have "validate_lazy self ds s1 = (r, s')" using Cons.prems(1) v by simp
    from Cons.IH[OF this] Cons.prems(2) c1 show ?thesis by simp
  qed
qed

lemma validate_lazy_cached:
  assumes "validate_lazy self ds s = (Inr u, s')" and "d \<in> set ds"
  shows "\<exists>d' \<in> set ds. name d' = name d \<and>
           (\<exists>v. validation_fn self d' = Inr v \<and> definition_cache s' (name d) = Some v)"
  using assms
proof (induction ds arbitrary: s d)
  case Nil
  then show ?case by simp
next
  case (Cons x ds)
  obtain r1 s1 where v: "validate_and_cache_definition self x (name x) s = (r1, s1)"
    by (cases "validate_and_cache_definition self x (name x) s")
  obtain u1 where r1: "r1 = Inr u1" using Cons.prems(1) v by (cases r1) auto
  have rest: "validate_lazy self ds s1 = (Inr u, s')" using Cons.prems(1) v r1 by simp
  show ?case
  proof (cases "name d \<in> name ` set ds")
    case True
    then obtain y where y: "y \<in> set ds" "name y = name d" by auto
    from Cons.IH[OF rest y(1)] y(2) show ?thesis by auto
  next
    case False
    then have "d = x" using Cons.prems(2) by auto
    moreover have "definition_cache s' (name d) = definition_cache s1 (name d)"
      using validate_lazy_cache_other[OF rest False] .
    ultimately show ?thesis using vcd_cached[OF v[unfolded r1]] by auto
  qed
qed

lemma validate_lazy_returns:
  assumes "\<forall>d \<in> set ds. definition_class self d \<and> (\<exists>v. validation_fn self d = Inr v)"
  shows "fst (validate_lazy self ds s) = Inr ()"
  using assms
proof (induction ds arbitrary: s)
  case Nil
  then show ?case by simp
next
  case (Cons d ds)
  then obtain v where "definition_class self d" "validation_fn self d = Inr v" by auto
  then show ?case using Cons by (simp add: validate_and_cache_definition_unfold)
qed

text \<open>
  \<^verbatim>\<open>_get_lazy_definitions\<close> returns on a new index when the lazy-definitions function
  returns and each definition it returns is an instance of the class that the validation
  function accepts.
\<close>

lemma get_lazy_returns:
  assumes "the_lazy_definitions_fn self 0 = Inr ds"
    and "\<forall>d \<in> set ds. definition_class self d \<and> (\<exists>v. validation_fn self d = Inr v)"
  shows "fst (get_lazy_definitions self initial_state) = Inr ds"
proof -
  let ?s = "initial_state\<lparr>lazy_definitions := Some ds, trace := trace initial_state @ [Discovery]\<rparr>"
  have "fst (validate_lazy self ds ?s) = Inr ()" using validate_lazy_returns[OF assms(2)] .
  then obtain s' where "validate_lazy self ds ?s = (Inr (), s')"
    by (cases "validate_lazy self ds ?s") simp
  moreover have "lazy_definitions (initial_state :: 'a state) = None"
    "count_list (trace (initial_state :: 'a state)) Discovery = 0"
    by (simp_all add: initial_state_def)
  ultimately show ?thesis using assms(1) by (simp add: get_lazy_definitions_def)
qed

lemma collect_no_conflict:
  assumes "\<forall>d \<in> set ds. \<forall>src. map_of (definitions self) (name d) = Some src \<longrightarrow> source_eq src d"
  shows "\<exists>lz. collect_lazy_names self ds acc = Inr lz"
  using assms
proof (induction ds arbitrary: acc)
  case Nil
  then show ?case by simp
next
  case (Cons d ds)
  then show ?case by (cases "map_of (definitions self) (name d)") auto
qed

lemma collect_conflict:
  assumes "d \<in> set ds" and "map_of (definitions self) (name d) = Some src"
    and "\<not> source_eq src d"
  shows "\<exists>d' \<in> set ds. \<exists>src'. map_of (definitions self) (name d') = Some src' \<and>
           \<not> source_eq src' d' \<and>
           collect_lazy_names self ds acc = Inl (CheckError (DuplicateDefinition (name d')))"
  using assms
proof (induction ds arbitrary: acc)
  case Nil
  then show ?case by simp
next
  case (Cons x ds)
  show ?case
  proof (cases "map_of (definitions self) (name x)")
    case None
    then have "d \<noteq> x" using Cons.prems(2) by auto
    then have "d \<in> set ds" using Cons.prems(1) by simp
    from Cons.IH[OF this Cons.prems(2,3), of "acc @ [name x]"] None show ?thesis by auto
  next
    case (Some sx)
    show ?thesis
    proof (cases "source_eq sx x")
      case False
      then show ?thesis using Some by auto
    next
      case True
      then have "d \<noteq> x" using Cons.prems(2,3) Some by auto
      then have "d \<in> set ds" using Cons.prems(1) by simp
      from Cons.IH[OF this Cons.prems(2,3), of acc] Some True show ?thesis by auto
    qed
  qed
qed

text \<open>
  A state in which the lazy definitions are memoized, the name list is not, and the loop
  of lines 84 to 92 raises: every call raises the same and changes nothing.
\<close>

lemma stuck_names:
  assumes "lazy_definitions s = Some ds" and "\<not> truthy (definition_names s)"
    and "collect_lazy_names self ds [] = Inl e"
  shows "get_definition_names self s = (Inl e, s)"
  using assms by (simp add: get_definition_names_def get_lazy_definitions_def)

lemma stuck_perform:
  assumes "lazy_definitions s = Some ds" and "\<not> truthy (definition_names s)"
    and "all_definitions s = None" and "collect_lazy_names self ds [] = Inl e"
  shows "perform self c s = (Inl e, s)"
  using stuck_names[OF assms(1,2,4)] assms(3)
  by (cases c) (simp_all add: has_definition_def get_definition_def get_all_definitions_def)

lemma stuck_run:
  assumes "lazy_definitions s = Some ds" and "\<not> truthy (definition_names s)"
    and "all_definitions s = None" and "collect_lazy_names self ds [] = Inl e"
  shows "run self cs s = s"
  by (induction cs) (simp_all add: stuck_perform[OF assms])

lemma first_call_stuck:
  assumes "get_lazy_definitions self s = (Inr ds, s1)" and "\<not> truthy (definition_names s)"
    and "all_definitions s = None" and "collect_lazy_names self ds [] = Inl e"
  shows "perform self c s = (Inl e, s1)"
proof -
  have "get_definition_names self s = (Inl e, s1)"
    using assms(1,2,4) by (simp add: get_definition_names_def)
  then show ?thesis using assms(3)
    by (cases c) (simp_all add: has_definition_def get_definition_def get_all_definitions_def)
qed

lemma get_lazy_first:
  assumes "lazy_definitions s = None" and "get_lazy_definitions self s = (Inr ds, s1)"
  shows "\<exists>u. validate_lazy self ds
           (s\<lparr>lazy_definitions := Some ds, trace := trace s @ [Discovery]\<rparr>) = (Inr u, s1)"
  using assms
  by (auto simp: get_lazy_definitions_def split: sum.splits prod.splits)

lemma get_lazy_all:
  assumes "get_lazy_definitions self s = (r, s')"
  shows "all_definitions s' = all_definitions s"
  using get_lazy_shape[OF assms] by auto

lemma source_eq_unique: "source_eq src d \<Longrightarrow> source_eq src d' \<Longrightarrow> d' = d"
  by (cases src) auto

subsection \<open>Conflicting and equal representations\<close>

text \<open>
  Claim C4. Take a new index on which \<^verbatim>\<open>_get_lazy_definitions\<close> returns: the
  lazy-definitions function returns a list and line 75 accepts each of its definitions.

  If the name of a lazy definition is a key of the mapping and the value under that
  key is not equal to the lazy definition, then the first call on the index, whichever
  it is, raises the check error of line 87 for such a name, and so does every call
  after it, in any sequence of calls: nothing is ever answered from the index, for that
  name or any other.

  If every lazy definition whose name is a key of the mapping equals the value under
  that key, then \<^verbatim>\<open>get_definition\<close> for each such name returns: it returns what the
  validation function returned for the definition.
\<close>

theorem conflicting_names_raise_and_equal_ones_resolve:
  assumes "init self = Inr s0" and "fst (get_lazy_definitions self s0) = Inr ds"
  shows "((\<exists>d \<in> set ds. \<exists>src. map_of (definitions self) (name d) = Some src \<and>
              \<not> source_eq src d) \<longrightarrow>
          (\<exists>d \<in> set ds. \<exists>src. map_of (definitions self) (name d) = Some src \<and>
              \<not> source_eq src d \<and>
              (\<forall>cs c. fst (perform self c (run self cs s0)) =
                 Inl (CheckError (DuplicateDefinition (name d)))))) \<and>
         ((\<forall>d \<in> set ds. \<forall>src. map_of (definitions self) (name d) = Some src \<longrightarrow>
              source_eq src d) \<longrightarrow>
          (\<forall>d \<in> set ds. name d \<in> fst ` set (definitions self) \<longrightarrow>
              (\<exists>v. validation_fn self d = Inr v \<and>
                   fst (get_definition self (name d) s0) = Inr v)))"
proof (intro conjI impI ballI)
  have s0: "s0 = initial_state" using init_state[OF assms(1)] .
  have n0: "\<not> truthy (definition_names s0)" "all_definitions s0 = None"
    "lazy_definitions s0 = None"
    using s0 by (simp_all add: initial_state_def)
  obtain s1 where g: "get_lazy_definitions self s0 = (Inr ds, s1)"
    using assms(2) by (cases "get_lazy_definitions self s0") simp
  have l1: "lazy_definitions s1 = Some ds" using get_lazy_success[OF g] .
  have n1: "\<not> truthy (definition_names s1)" using get_lazy_names[OF g] n0(1) by simp
  have a1: "all_definitions s1 = None" using get_lazy_all[OF g] n0(2) by simp
  {
    assume "\<exists>d \<in> set ds. \<exists>src. map_of (definitions self) (name d) = Some src \<and> \<not> source_eq src d"
    then obtain d src where "d \<in> set ds" "map_of (definitions self) (name d) = Some src"
      "\<not> source_eq src d" by blast
    from collect_conflict[OF this, of "[]"] obtain d' src' where
      d': "d' \<in> set ds" "map_of (definitions self) (name d') = Some src'" "\<not> source_eq src' d'"
      and c: "collect_lazy_names self ds [] = Inl (CheckError (DuplicateDefinition (name d')))"
      by blast
    let ?e = "CheckError (DuplicateDefinition (name d'))"
    have first: "perform self c s0 = (Inl ?e, s1)" for c
      using first_call_stuck[OF g n0(1) n0(2) c] .
    have later: "perform self c s1 = (Inl ?e, s1)" for c
      using stuck_perform[OF l1 n1 a1 c] .
    have "fst (perform self c (run self cs s0)) = Inl ?e" for cs c
    proof (cases cs)
      case Nil
      then show ?thesis using first by simp
    next
      case (Cons c' cs')
      then have "run self cs s0 = s1"
        using first[of c'] stuck_run[OF l1 n1 a1 c, of cs'] by simp
      then show ?thesis using later by simp
    qed
    then show "\<exists>d \<in> set ds. \<exists>src. map_of (definitions self) (name d) = Some src \<and>
              \<not> source_eq src d \<and>
              (\<forall>cs c. fst (perform self c (run self cs s0)) =
                 Inl (CheckError (DuplicateDefinition (name d))))"
      using d' by blast
  }
  {
    fix d
    assume ok: "\<forall>d \<in> set ds. \<forall>src. map_of (definitions self) (name d) = Some src \<longrightarrow>
              source_eq src d"
      and d: "d \<in> set ds" and k: "name d \<in> fst ` set (definitions self)"
    from collect_no_conflict[OF ok, of "[]"] obtain lz where
      c: "collect_lazy_names self ds [] = Inr lz" by blast
    let ?names = "map fst (definitions self) @ lz"
    let ?s2 = "s1\<lparr>definition_names := Some ?names, trace := trace s1 @ [Names]\<rparr>"
    have gn: "get_definition_names self s0 = (Inr ?names, ?s2)"
      using g n0(1) c by (simp add: get_definition_names_def Let_def)
    have inn: "name d \<in> set ?names" using k by simp
    from get_lazy_first[OF n0(3) g] obtain u where
      "validate_lazy self ds (s0\<lparr>lazy_definitions := Some ds, trace := trace s0 @ [Discovery]\<rparr>)
         = (Inr u, s1)" by blast
    from validate_lazy_cached[OF this d] obtain d' v where
      d': "d' \<in> set ds" "name d' = name d" and v: "validation_fn self d' = Inr v"
      and ca: "definition_cache s1 (name d) = Some v" by blast
    obtain src where src: "map_of (definitions self) (name d) = Some src"
      using k by (metis map_of_eq_None_iff not_Some_eq)
    have "source_eq src d" "source_eq src d'" using ok d d' src by auto
    then have "d' = d" by (rule source_eq_unique)
    moreover have "get_definition self (name d) s0 = (Inr v, ?s2)"
      using get_definition_found[OF gn inn] ca by simp
    ultimately show "\<exists>v. validation_fn self d = Inr v \<and>
                   fst (get_definition self (name d) s0) = Inr v"
      using v by simp
  }
qed

theorem conflicting_names_raise_and_equal_ones_resolve_witness:
  "init conflicting_index = Inr initial_state \<and>
   fst (get_lazy_definitions conflicting_index initial_state) = Inr [other_a, job_c] \<and>
   (\<exists>d \<in> set [other_a, job_c]. \<exists>src.
      map_of (definitions conflicting_index) (name d) = Some src \<and> \<not> source_eq src d \<and>
      (\<forall>cs c. fst (perform conflicting_index c (run conflicting_index cs initial_state)) =
         Inl (CheckError (DuplicateDefinition (name d))))) \<and>
   fst (perform conflicting_index (Resolve ''a'') (run conflicting_index [ListNames] initial_state))
     = Inl (CheckError (DuplicateDefinition ''a'')) \<and>
   init overlapping_index = Inr initial_state \<and>
   fst (get_lazy_definitions overlapping_index initial_state) = Inr [job_a, job_c] \<and>
   name job_a \<in> fst ` set (definitions overlapping_index) \<and>
   (\<exists>v. validation_fn overlapping_index job_a = Inr v \<and>
      fst (get_definition overlapping_index (name job_a) initial_state) = Inr v) \<and>
   fst (get_definition overlapping_index ''a'' initial_state) = Inr job_a"
proof -
  have 1: "init conflicting_index = Inr initial_state"
    by (simp add: method_defs example_defs conflicting_index_def)
  have 2: "fst (get_lazy_definitions conflicting_index initial_state) = Inr [other_a, job_c]"
    by (simp add: method_defs example_defs conflicting_index_def other_a_def)
  have 3: "\<exists>d \<in> set [other_a, job_c]. \<exists>src.
      map_of (definitions conflicting_index) (name d) = Some src \<and> \<not> source_eq src d"
    by (simp add: example_defs conflicting_index_def other_a_def)
  have 4: "fst (perform conflicting_index (Resolve ''a'')
      (run conflicting_index [ListNames] initial_state)) = Inl (CheckError (DuplicateDefinition ''a''))"
    by (simp add: method_defs example_defs conflicting_index_def other_a_def)
  have 5: "init overlapping_index = Inr initial_state"
    by (simp add: method_defs example_defs overlapping_index_def)
  have 6: "fst (get_lazy_definitions overlapping_index initial_state) = Inr [job_a, job_c]"
    by (simp add: method_defs example_defs overlapping_index_def)
  have 7: "\<forall>d \<in> set [job_a, job_c]. \<forall>src.
      map_of (definitions overlapping_index) (name d) = Some src \<longrightarrow> source_eq src d"
    by (simp add: example_defs overlapping_index_def)
  have 8: "name job_a \<in> fst ` set (definitions overlapping_index)"
    by (simp add: example_defs overlapping_index_def)
  have 9: "job_a \<in> set [job_a, job_c]" by simp
  have 10: "fst (get_definition overlapping_index ''a'' initial_state) = Inr job_a"
    by (simp add: method_defs example_defs overlapping_index_def)
  note t = conflicting_names_raise_and_equal_ones_resolve[OF 1 2]
  note u = conflicting_names_raise_and_equal_ones_resolve[OF 5 6]
  have a: "\<exists>d \<in> set [other_a, job_c]. \<exists>src.
      map_of (definitions conflicting_index) (name d) = Some src \<and> \<not> source_eq src d \<and>
      (\<forall>cs c. fst (perform conflicting_index c (run conflicting_index cs initial_state)) =
         Inl (CheckError (DuplicateDefinition (name d))))"
    using mp[OF conjunct1[OF t] 3] .
  have b: "\<exists>v. validation_fn overlapping_index job_a = Inr v \<and>
      fst (get_definition overlapping_index (name job_a) initial_state) = Inr v"
    using mp[OF bspec[OF mp[OF conjunct2[OF u] 7] 9] 8] .
  show ?thesis
    by (intro conjI) (rule 1, rule 2, rule a, rule 4, rule 5, rule 6, rule 8, rule b, rule 10)
qed

end
